theory Spec2Isabelle
  imports Main
begin

section \<open>The data model of use-merged-ref.ts\<close>

text \<open>
  \<^verbatim>\<open>type PossibleRef<T> = Ref<T> | undefined\<close>, where React's \<^verbatim>\<open>Ref<T>\<close> is a callback, a ref
  object or \<^verbatim>\<open>null\<close>. A callback and a ref object are JavaScript objects, compared by
  identity when they are keys of a \<^verbatim>\<open>Map\<close>: each is named by a number, its identity.
  \<^verbatim>\<open>undefined\<close> and \<^verbatim>\<open>null\<close> are two different keys of a \<^verbatim>\<open>Map\<close>.
\<close>

datatype possibleRef = Undefined | Null | RefCallback nat | RefObject nat

text \<open>
  \<^verbatim>\<open>type RefCleanup<T> = ReturnType<RefCallback<T>>\<close>, the value a ref callback returns. The
  return type of a callback is \<^verbatim>\<open>void\<close>, which admits a function that returns any value, so
  at run time the value is any JavaScript value. The module tells four kinds apart:
  \<open>NoCleanup\<close>, nothing (\<^verbatim>\<open>undefined\<close>, or \<^verbatim>\<open>null\<close>, which \<^verbatim>\<open>??\<close> treats alike); \<open>Cleanup\<close>, a
  function, named by its identity; \<open>Truthy\<close>, a value that is truthy and not a function, as
  the node that \<^verbatim>\<open>el => (x = el)\<close> returns, or 42; \<open>Falsy\<close>, a falsy value other than
  \<^verbatim>\<open>undefined\<close> and \<^verbatim>\<open>null\<close>, as 0 or the empty string.
\<close>

datatype refCleanup = NoCleanup | Cleanup nat | Truthy nat | Falsy nat

text \<open>
  Whatever a ref callback or a cleanup function throws, and the \<^verbatim>\<open>TypeError\<close> that JavaScript
  throws when a value that is not a function is called.
\<close>

datatype error = Thrown nat | TypeError

text \<open>
  What the tests observe: the calls of the ref callbacks, each with its argument
  (\<open>None\<close> is \<^verbatim>\<open>null\<close>), and the calls of the cleanup functions, in the order they happen.
\<close>

datatype 'v call = RefCalled nat "'v option" | CleanupCalled nat

text \<open>
  The bodies of the ref callbacks and of the cleanup functions are not part of the module:
  they are parameters. Called after the calls \<open>h\<close>, the callback \<open>f\<close> applied to \<open>v\<close>
  returns \<open>refCallback E f v h\<close>, a thrown error or its return value, and the cleanup
  function \<open>c\<close> throws \<open>cleanupFn E c h\<close> or returns. A callback is not given the combined
  ref and does not write the \<^verbatim>\<open>current\<close> field of a ref object: what it does besides is
  seen through the record of the calls only.
\<close>

record 'v env =
  refCallback :: "nat \<Rightarrow> 'v option \<Rightarrow> 'v call list \<Rightarrow> error + refCleanup"
  cleanupFn :: "nat \<Rightarrow> 'v call list \<Rightarrow> error option"

text \<open>
  The state: \<^verbatim>\<open>cleanupMap\<close>, the \<^verbatim>\<open>Map<PossibleRef<T>, RefCleanup<T> | null>\<close> private to one
  combined ref (a key that is absent has no entry, the value \<open>None\<close> is \<^verbatim>\<open>null\<close>, any other
  value is what a callback has returned), the
  \<^verbatim>\<open>current\<close> field of every ref object, and the calls made so far.
\<close>

record 'v state =
  cleanupMap :: "possibleRef \<rightharpoonup> refCleanup option"
  current :: "nat \<Rightarrow> 'v option"
  calls :: "'v call list"

section \<open>assignRef\<close>

text \<open>
  \<^verbatim>\<open>
  export function assignRef<T>(ref: PossibleRef<T>, value: T): RefCleanup<T> {
    if (typeof ref === "function") {
      return ref(value);
    } else if (typeof ref === "object" && ref !== null && "current" in ref) {
      (ref as React.MutableRefObject<T>).current = value;
    }
  }
  \<close>
  The call is recorded before the callback's body runs, so it is recorded also when the
  callback throws.
\<close>

fun assignRef ::
  "'v env \<Rightarrow> possibleRef \<Rightarrow> 'v option \<Rightarrow> 'v state \<Rightarrow> (error + refCleanup) \<times> 'v state"
where
  "assignRef E (RefCallback f) v s =
     (refCallback E f v (calls s), s\<lparr>calls := calls s @ [RefCalled f v]\<rparr>)"
| "assignRef E (RefObject c) v s = (Inr NoCleanup, s\<lparr>current := (current s)(c := v)\<rparr>)"
| "assignRef E Undefined v s = (Inr NoCleanup, s)"
| "assignRef E Null v s = (Inr NoCleanup, s)"

section \<open>mergeRefs\<close>

text \<open>
  \<^verbatim>\<open>assignRef(ref, node) ?? null\<close>: nothing returned is stored as \<^verbatim>\<open>null\<close>, every other value
  as it is, a function or not.
\<close>

fun orNull :: "refCleanup \<Rightarrow> refCleanup option" where
  "orNull NoCleanup = None"
| "orNull (Cleanup c) = Some (Cleanup c)"
| "orNull (Truthy x) = Some (Truthy x)"
| "orNull (Falsy x) = Some (Falsy x)"

text \<open>
  \<^verbatim>\<open>
  refs.forEach((ref) => {
    cleanupMap.set(ref, assignRef(ref, node) ?? null);
  });
  \<close>
  An error thrown by \<^verbatim>\<open>assignRef\<close> leaves the loop: nothing is stored for that ref and the
  rest of the list is not visited.
\<close>

fun attachEach ::
  "'v env \<Rightarrow> 'v \<Rightarrow> possibleRef list \<Rightarrow> 'v state \<Rightarrow> (error + unit) \<times> 'v state"
where
  "attachEach E node [] s = (Inr (), s)"
| "attachEach E node (r # refs) s =
     (case assignRef E r (Some node) s of
        (Inl e, s') \<Rightarrow> (Inl e, s')
      | (Inr res, s') \<Rightarrow>
          attachEach E node refs (s'\<lparr>cleanupMap := (cleanupMap s')(r \<mapsto> orNull res)\<rparr>))"

text \<open>
  The call \<^verbatim>\<open>cleanup()\<close> of a stored cleanup function, recorded also when the function
  throws.
\<close>

definition callCleanup :: "'v env \<Rightarrow> nat \<Rightarrow> 'v state \<Rightarrow> (error + unit) \<times> 'v state" where
  "callCleanup E c s =
     ((case cleanupFn E c (calls s) of Some e \<Rightarrow> Inl e | None \<Rightarrow> Inr ()),
      s\<lparr>calls := calls s @ [CleanupCalled c]\<rparr>)"

text \<open>
  \<^verbatim>\<open>
  refs.forEach((ref) => {
    const cleanup = cleanupMap.get(ref);
    if (cleanup) {
      cleanup();
    } else {
      assignRef(ref, null);
    }
  });
  \<close>
  \<^verbatim>\<open>cleanupMap.get(ref)\<close> is \<^verbatim>\<open>undefined\<close> for a key without entry and \<^verbatim>\<open>null\<close> for a stored
  \<^verbatim>\<open>null\<close>: both are falsy, and so is a stored \<open>Falsy\<close> value. \<^verbatim>\<open>if (cleanup)\<close> tests that the
  value is truthy, not that it is a function: a stored function is called, and for a stored
  \<open>Truthy\<close> value the call \<^verbatim>\<open>cleanup()\<close> throws a \<^verbatim>\<open>TypeError\<close>, before anything else is done
  for that ref.
\<close>

fun detachEach ::
  "'v env \<Rightarrow> possibleRef list \<Rightarrow> 'v state \<Rightarrow> (error + unit) \<times> 'v state"
where
  "detachEach E [] s = (Inr (), s)"
| "detachEach E (r # refs) s =
     (case cleanupMap s r of
        Some (Some (Cleanup cleanup)) \<Rightarrow>
          (case callCleanup E cleanup s of
             (Inl e, s') \<Rightarrow> (Inl e, s')
           | (Inr u, s') \<Rightarrow> detachEach E refs s')
      | Some (Some (Truthy x)) \<Rightarrow> (Inl TypeError, s)
      | _ \<Rightarrow>
          (case assignRef E r None s of
             (Inl e, s') \<Rightarrow> (Inl e, s')
           | (Inr res, s') \<Rightarrow> detachEach E refs s'))"

text \<open>
  \<^verbatim>\<open>
  export function mergeRefs<T>(...refs: PossibleRef<T>[]) {
    const cleanupMap = new Map<PossibleRef<T>, RefCleanup<T> | null>();
    return (node: T | null) => {
      if (node !== null) { ...attach loop... }
      else { ...detach loop...; cleanupMap.clear(); }
    };
  }
  \<close>
  \<open>created\<close> is the state when \<^verbatim>\<open>mergeRefs(...refs)\<close> returns, with the new, empty map;
  \<open>mergeRefs E refs\<close> is the function it returns. \<^verbatim>\<open>cleanupMap.clear()\<close> is reached only when
  the detach loop has not thrown.
\<close>

definition created :: "(nat \<Rightarrow> 'v option) \<Rightarrow> 'v call list \<Rightarrow> 'v state" where
  "created cur h = \<lparr>cleanupMap = Map.empty, current = cur, calls = h\<rparr>"

definition mergeRefs ::
  "'v env \<Rightarrow> possibleRef list \<Rightarrow> 'v option \<Rightarrow> 'v state \<Rightarrow> (error + unit) \<times> 'v state"
where
  "mergeRefs E refs node s =
     (case node of
        Some n \<Rightarrow> attachEach E n refs s
      | None \<Rightarrow>
          (case detachEach E refs s of
             (Inl e, s') \<Rightarrow> (Inl e, s')
           | (Inr u, s') \<Rightarrow> (Inr (), s'\<lparr>cleanupMap := Map.empty\<rparr>)))"

section \<open>What the properties are stated with\<close>


text \<open>The calls of the callbacks of a list with the argument \<open>v\<close>, in the order of the list.\<close>

fun refCalls :: "'v option \<Rightarrow> possibleRef list \<Rightarrow> 'v call list" where
  "refCalls v [] = []"
| "refCalls v (RefCallback f # refs) = RefCalled f v # refCalls v refs"
| "refCalls v (RefObject c # refs) = refCalls v refs"
| "refCalls v (Undefined # refs) = refCalls v refs"
| "refCalls v (Null # refs) = refCalls v refs"

text \<open>
  What the callbacks \<open>fs\<close> return when they are called with \<open>v\<close> one after the other,
  the first of them after the calls \<open>h\<close>.
\<close>

fun returned :: "'v env \<Rightarrow> 'v \<Rightarrow> nat list \<Rightarrow> 'v call list \<Rightarrow> (error + refCleanup) list" where
  "returned E v [] h = []"
| "returned E v (f # fs) h =
     refCallback E f (Some v) h # returned E v fs (h @ [RefCalled f (Some v)])"

text \<open>A ref that is set: a callback or a ref object.\<close>

fun present :: "possibleRef \<Rightarrow> bool" where
  "present Undefined = False"
| "present Null = False"
| "present (RefCallback f) = True"
| "present (RefObject c) = True"

text \<open>
  No cleanup function is stored for the key \<open>r\<close>, nor any other value returned by a
  callback: the key has no entry or the entry \<^verbatim>\<open>null\<close>.
\<close>

definition noCleanupAt :: "(possibleRef \<rightharpoonup> refCleanup option) \<Rightarrow> possibleRef \<Rightarrow> bool" where
  "noCleanupAt m r = (case m r of Some (Some c) \<Rightarrow> False | _ \<Rightarrow> True)"

text \<open>
  Two states that differ at most in the entries of \<^verbatim>\<open>cleanupMap\<close> for \<^verbatim>\<open>undefined\<close> and
  \<^verbatim>\<open>null\<close>, where neither stores a cleanup function.
\<close>

definition sameButAbsent :: "'v state \<Rightarrow> 'v state \<Rightarrow> bool" where
  "sameButAbsent s t =
     (calls s = calls t \<and> current s = current t
      \<and> (\<forall>r. present r \<longrightarrow> cleanupMap s r = cleanupMap t r)
      \<and> noCleanupAt (cleanupMap s) Undefined \<and> noCleanupAt (cleanupMap s) Null
      \<and> noCleanupAt (cleanupMap t) Undefined \<and> noCleanupAt (cleanupMap t) Null)"

text \<open>
  The callbacks of the tests. Callback 1 is \<^verbatim>\<open>fnRef2\<close>, which returns nothing; callback 2
  throws; callback 4 is \<^verbatim>\<open>(el) => (x = el)\<close>, which stores its argument and returns it: the
  node \<open>n\<close>, an object, is the value \<open>Truthy n\<close>, and \<^verbatim>\<open>null\<close> is nothing; every other callback
  is a \<^verbatim>\<open>fnRef\<close>, which returns a new function \<^verbatim>\<open>() => { cleanupCalled.push(node) }\<close> at every
  call: the function returned after the calls \<open>h\<close> is named by the length of \<open>h\<close>. No cleanup
  function throws.
\<close>

definition testEnv :: "nat env" where
  "testEnv =
     \<lparr>refCallback = (\<lambda>f v h. if f = 1 then Inr NoCleanup
                             else if f = 2 then Inl (Thrown 2)
                             else if f = 4 then Inr (case v of None \<Rightarrow> NoCleanup | Some n \<Rightarrow> Truthy n)
                             else Inr (Cleanup (length h))),
      cleanupFn = (\<lambda>c h. None)\<rparr>"

text \<open>The state of the tests when \<^verbatim>\<open>mergeRefs\<close> returns: every ref object holds \<^verbatim>\<open>null\<close>.\<close>

definition testState :: "nat state" where
  "testState = created (\<lambda>c. None) []"

section \<open>How one call of \<^verbatim>\<open>assignRef\<close>, of a cleanup function and of the attach loop changes the state\<close>

lemma attachEach_append:
  "attachEach E n (xs @ ys) s =
     (case attachEach E n xs s of (Inl e, s') \<Rightarrow> (Inl e, s') | (Inr u, s') \<Rightarrow> attachEach E n ys s')"
  by (induction xs arbitrary: s) (auto split: prod.splits sum.splits)

lemma detachEach_append:
  "detachEach E (xs @ ys) s =
     (case detachEach E xs s of (Inl e, s') \<Rightarrow> (Inl e, s') | (Inr u, s') \<Rightarrow> detachEach E ys s')"
  by (induction xs arbitrary: s) (auto split: prod.splits sum.splits option.splits refCleanup.splits)

lemma assignRef_cleanupMap: "assignRef E r v s = (x, s') \<Longrightarrow> cleanupMap s' = cleanupMap s"
  by (cases r) auto

lemma assignRef_calls: "assignRef E r v s = (x, s') \<Longrightarrow> calls s' = calls s @ refCalls v [r]"
  by (cases r) auto

lemma assignRef_current:
  "assignRef E r v s = (x, s') \<Longrightarrow>
     current s' = (case r of RefObject c \<Rightarrow> (current s)(c := v) | _ \<Rightarrow> current s)"
  by (cases r) auto

lemma assignRef_absent: "\<not> present r \<Longrightarrow> assignRef E r v s = (Inr NoCleanup, s)"
  by (cases r) auto

lemma callCleanup_cleanupMap: "callCleanup E c s = (x, s') \<Longrightarrow> cleanupMap s' = cleanupMap s"
  by (auto simp: callCleanup_def)

lemma entry_cases:
  obtains (callable) c where "m = Some (Some (Cleanup c))"
    | (truthy) x where "m = Some (Some (Truthy x))"
    | (falsy) "\<forall>c. m \<noteq> Some (Some (Cleanup c))" "\<forall>x. m \<noteq> Some (Some (Truthy x))"
proof (cases m)
  case None
  then show ?thesis using falsy by simp
next
  case (Some e)
  show ?thesis
  proof (cases e)
    case None
    with Some show ?thesis using falsy by simp
  next
    case inner: (Some w)
    with Some show ?thesis using callable truthy falsy by (cases w) simp_all
  qed
qed

lemma detachEach_falsy:
  assumes "\<forall>c. cleanupMap s r \<noteq> Some (Some (Cleanup c))"
      and "\<forall>x. cleanupMap s r \<noteq> Some (Some (Truthy x))"
  shows "detachEach E (r # refs) s =
           (case assignRef E r None s of
              (Inl e, s') \<Rightarrow> (Inl e, s')
            | (Inr res, s') \<Rightarrow> detachEach E refs s')"
  using assms by (auto split: option.splits refCleanup.splits)

lemma noCleanupAt_falsy:
  "noCleanupAt m r \<Longrightarrow>
     (\<forall>c. m r \<noteq> Some (Some (Cleanup c))) \<and> (\<forall>x. m r \<noteq> Some (Some (Truthy x)))"
  by (auto simp: noCleanupAt_def)

lemma detachEach_cleanupMap: "detachEach E refs s = (x, s') \<Longrightarrow> cleanupMap s' = cleanupMap s"
  by (induction refs arbitrary: s)
     (auto split: prod.splits sum.splits option.splits refCleanup.splits
           dest!: assignRef_cleanupMap callCleanup_cleanupMap)

lemma attachEach_calls:
  "attachEach E v refs s = (Inr (), s') \<Longrightarrow> calls s' = calls s @ refCalls (Some v) refs"
proof (induction refs arbitrary: s)
  case Nil
  then show ?case by simp
next
  case (Cons r refs)
  then show ?case
    by (cases r) (auto split: prod.splits sum.splits)
qed


lemma attachEach_dom:
  "attachEach E v refs s = (Inr (), s') \<Longrightarrow> dom (cleanupMap s') = dom (cleanupMap s) \<union> set refs"
proof (induction refs arbitrary: s)
  case Nil
  then show ?case by simp
next
  case (Cons r refs)
  then show ?case
    by (cases r) (auto split: prod.splits sum.splits if_splits)
qed

lemma attachEach_other_keys:
  "attachEach E v refs s = (x, s') \<Longrightarrow> r \<notin> set refs \<Longrightarrow> cleanupMap s' r = cleanupMap s r"
proof (induction refs arbitrary: s)
  case Nil
  then show ?case by simp
next
  case (Cons r' refs)
  then show ?case
    by (cases r') (auto split: prod.splits sum.splits if_splits)
qed


lemma attachEach_not_callback:
  "attachEach E v refs s = (Inr (), s') \<Longrightarrow> r \<in> set refs \<Longrightarrow> (\<And>f. r \<noteq> RefCallback f) \<Longrightarrow>
     cleanupMap s' r = Some None"
proof (induction refs arbitrary: s)
  case Nil
  then show ?case by simp
next
  case (Cons r' refs)
  show ?case
  proof (cases "r \<in> set refs")
    case True
    with Cons show ?thesis
      by (auto split: prod.splits sum.splits)
  next
    case False
    with Cons.prems have r': "r' = r" by simp
    obtain s1 where s1: "assignRef E r (Some v) s = (Inr NoCleanup, s1)"
      using Cons.prems(3) by (cases r) auto
    with Cons.prems(1) r'
    have "attachEach E v refs (s1\<lparr>cleanupMap := (cleanupMap s1)(r \<mapsto> None)\<rparr>) = (Inr (), s')"
      by simp
    from attachEach_other_keys [OF this False] show ?thesis by simp
  qed
qed

section \<open>The detach loop, and lists of callbacks\<close>

lemma refCalls_map_RefCallback: "refCalls v (map RefCallback fs) = map (\<lambda>f. RefCalled f v) fs"
  by (induction fs) auto

lemma detachEach_fallback:
  assumes "\<forall>r\<in>set refs. noCleanupAt (cleanupMap s) r"
      and "\<forall>f h. RefCallback f \<in> set refs \<longrightarrow> (\<exists>res. refCallback E f None h = Inr res)"
  shows "\<exists>s'. detachEach E refs s = (Inr (), s') \<and> calls s' = calls s @ refCalls None refs
           \<and> current s' = (\<lambda>c. if RefObject c \<in> set refs then None else current s c)"
  using assms
proof (induction refs arbitrary: s)
  case Nil
  show ?case by simp
next
  case (Cons r refs)
  from Cons.prems(1) have nc: "noCleanupAt (cleanupMap s) r" by simp
  obtain x s1 where step: "assignRef E r None s = (x, s1)" by (cases "assignRef E r None s")
  have ok: "\<exists>res. x = Inr res"
    using step Cons.prems(2) by (cases r) auto
  have m1: "cleanupMap s1 = cleanupMap s" by (rule assignRef_cleanupMap [OF step])
  from Cons.prems m1 have "\<forall>r\<in>set refs. noCleanupAt (cleanupMap s1) r" by simp
  moreover from Cons.prems(2)
  have "\<forall>f h. RefCallback f \<in> set refs \<longrightarrow> (\<exists>res. refCallback E f None h = Inr res)" by simp
  ultimately obtain s' where rest: "detachEach E refs s1 = (Inr (), s')"
      and c': "calls s' = calls s1 @ refCalls None refs"
      and cur': "current s' = (\<lambda>c. if RefObject c \<in> set refs then None else current s1 c)"
    using Cons.IH [of s1] by blast
  have whole: "detachEach E (r # refs) s = (Inr (), s')"
    using nc step ok rest by (auto simp: noCleanupAt_def split: option.splits refCleanup.splits)
  have "calls s' = calls s @ refCalls None (r # refs)"
    using c' assignRef_calls [OF step] by (cases r) auto
  moreover have "current s' = (\<lambda>c. if RefObject c \<in> set (r # refs) then None else current s c)"
    using cur' assignRef_current [OF step] by (cases r) (auto simp: fun_eq_iff)
  ultimately show ?case using whole by blast
qed

lemma detachEach_cleanups:
  assumes "list_all2 (\<lambda>f c. cleanupMap s (RefCallback f) = Some (Some (Cleanup c))) fs cs"
      and "\<forall>c\<in>set cs. \<forall>h. cleanupFn E c h = None"
  shows "\<exists>s'. detachEach E (map RefCallback fs) s = (Inr (), s')
           \<and> calls s' = calls s @ map CleanupCalled cs"
  using assms
proof (induction fs arbitrary: s cs)
  case Nil
  then show ?case by simp
next
  case (Cons f fs)
  from Cons.prems(1) obtain c cs' where cs: "cs = c # cs'"
      and here: "cleanupMap s (RefCallback f) = Some (Some (Cleanup c))"
      and rest: "list_all2 (\<lambda>f c. cleanupMap s (RefCallback f) = Some (Some (Cleanup c))) fs cs'"
    by (auto simp: list_all2_Cons1)
  let ?s1 = "s\<lparr>calls := calls s @ [CleanupCalled c]\<rparr>"
  have step: "callCleanup E c s = (Inr (), ?s1)"
    using Cons.prems(2) cs by (simp add: callCleanup_def)
  have "list_all2 (\<lambda>f c. cleanupMap ?s1 (RefCallback f) = Some (Some (Cleanup c))) fs cs'"
    using rest by simp
  moreover have "\<forall>c\<in>set cs'. \<forall>h. cleanupFn E c h = None" using Cons.prems(2) cs by simp
  ultimately obtain s' where "detachEach E (map RefCallback fs) ?s1 = (Inr (), s')"
      and "calls s' = calls ?s1 @ map CleanupCalled cs'"
    using Cons.IH [of ?s1 cs'] by blast
  then show ?case using here step cs by simp
qed

lemma returned_cleanups:
  assumes "\<forall>f\<in>set fs. \<forall>h. \<exists>c. refCallback E f (Some v) h = Inr (Cleanup c) \<and> (\<forall>h'. cleanupFn E c h' = None)"
  shows "\<exists>cs. returned E v fs h = map (\<lambda>c. Inr (Cleanup c)) cs \<and> (\<forall>c\<in>set cs. \<forall>h'. cleanupFn E c h' = None)"
  using assms
proof (induction fs arbitrary: h)
  case Nil
  show ?case by simp
next
  case (Cons f fs)
  from Cons.prems
  have "\<exists>c. refCallback E f (Some v) h = Inr (Cleanup c) \<and> (\<forall>h'. cleanupFn E c h' = None)"
    by simp
  then obtain c where c: "refCallback E f (Some v) h = Inr (Cleanup c)" "\<forall>h'. cleanupFn E c h' = None"
    by blast
  from Cons.prems
  have "\<forall>f\<in>set fs. \<forall>h. \<exists>c. refCallback E f (Some v) h = Inr (Cleanup c) \<and> (\<forall>h'. cleanupFn E c h' = None)"
    by simp
  from Cons.IH [OF this, of "h @ [RefCalled f (Some v)]"] obtain cs where
    "returned E v fs (h @ [RefCalled f (Some v)]) = map (\<lambda>c. Inr (Cleanup c)) cs"
    "\<forall>c\<in>set cs. \<forall>h'. cleanupFn E c h' = None"
    by blast
  with c have "returned E v (f # fs) h = map (\<lambda>c. Inr (Cleanup c)) (c # cs)
     \<and> (\<forall>c\<in>set (c # cs). \<forall>h'. cleanupFn E c h' = None)" by simp
  then show ?case by blast
qed

lemma attachEach_cleanups:
  assumes "distinct fs" and "returned E v fs (calls s) = map (\<lambda>c. Inr (Cleanup c)) cs"
  shows "\<exists>s'. attachEach E v (map RefCallback fs) s = (Inr (), s')
           \<and> list_all2 (\<lambda>f c. cleanupMap s' (RefCallback f) = Some (Some (Cleanup c))) fs cs"
  using assms
proof (induction fs arbitrary: s cs)
  case Nil
  then show ?case by simp
next
  case (Cons f fs)
  from Cons.prems(2) obtain c cs' where cs: "cs = c # cs'"
      and c: "refCallback E f (Some v) (calls s) = Inr (Cleanup c)"
      and rest: "returned E v fs (calls s @ [RefCalled f (Some v)]) = map (\<lambda>c. Inr (Cleanup c)) cs'"
    by (cases cs) auto
  let ?s1 = "s\<lparr>calls := calls s @ [RefCalled f (Some v)],
               cleanupMap := (cleanupMap s)(RefCallback f \<mapsto> Some (Cleanup c))\<rparr>"
  from Cons.prems(1) have d: "distinct fs" and nf: "RefCallback f \<notin> set (map RefCallback fs)" by auto
  from rest have "returned E v fs (calls ?s1) = map (\<lambda>c. Inr (Cleanup c)) cs'" by simp
  from Cons.IH [OF d this] obtain s' where
    run: "attachEach E v (map RefCallback fs) ?s1 = (Inr (), s')"
    and all: "list_all2 (\<lambda>f c. cleanupMap s' (RefCallback f) = Some (Some (Cleanup c))) fs cs'"
    by blast
  have "cleanupMap s' (RefCallback f) = Some (Some (Cleanup c))"
    using attachEach_other_keys [OF run nf] by simp
  moreover have "attachEach E v (map RefCallback (f # fs)) s = (Inr (), s')"
    using c run by simp
  ultimately show ?case using all cs by simp
qed

lemma attachEach_returns:
  assumes "\<forall>f h. RefCallback f \<in> set refs \<longrightarrow> (\<exists>res. refCallback E f (Some v) h = Inr res)"
  shows "\<exists>s'. attachEach E v refs s = (Inr (), s')"
  using assms
proof (induction refs arbitrary: s)
  case Nil
  show ?case by simp
next
  case (Cons r refs)
  obtain x s1 where step: "assignRef E r (Some v) s = (x, s1)" by (cases "assignRef E r (Some v) s")
  have "\<exists>res. x = Inr res" using step Cons.prems by (cases r) auto
  then obtain res where x: "x = Inr res" by blast
  from Cons.prems have "\<forall>f h. RefCallback f \<in> set refs \<longrightarrow> (\<exists>res. refCallback E f (Some v) h = Inr res)"
    by simp
  from Cons.IH [OF this, of "s1\<lparr>cleanupMap := (cleanupMap s1)(r \<mapsto> orNull res)\<rparr>"] step x
  show ?case by simp
qed

lemma attachEach_nocleanup:
  assumes "attachEach E v (map RefCallback fs) s = (Inr (), s')"
      and "\<forall>f\<in>set fs. \<forall>h. refCallback E f (Some v) h = Inr NoCleanup"
  shows "\<forall>f\<in>set fs. cleanupMap s' (RefCallback f) = Some None"
  using assms
proof (induction fs arbitrary: s)
  case Nil
  show ?case by simp
next
  case (Cons f fs)
  let ?s1 = "s\<lparr>calls := calls s @ [RefCalled f (Some v)], cleanupMap := (cleanupMap s)(RefCallback f \<mapsto> None)\<rparr>"
  from Cons.prems have run: "attachEach E v (map RefCallback fs) ?s1 = (Inr (), s')" by simp
  from Cons.prems(2) have "\<forall>f\<in>set fs. \<forall>h. refCallback E f (Some v) h = Inr NoCleanup" by simp
  from Cons.IH [OF run this] have IH: "\<forall>f\<in>set fs. cleanupMap s' (RefCallback f) = Some None" .
  show ?case
  proof (cases "f \<in> set fs")
    case True
    with IH show ?thesis by simp
  next
    case False
    then have "RefCallback f \<notin> set (map RefCallback fs)" by auto
    from attachEach_other_keys [OF run this] IH show ?thesis by simp
  qed
qed

section \<open>Ref objects, and the keys without a cleanup function\<close>





section \<open>Where a thrown error comes from\<close>

lemma attachEach_error_source:
  "attachEach E v refs s = (Inl e, s') \<Longrightarrow> \<exists>f a h. refCallback E f a h = Inl e"
proof (induction refs arbitrary: s)
  case Nil
  then show ?case by simp
next
  case (Cons r refs)
  then show ?case
    by (cases r) (auto split: prod.splits sum.splits)
qed

lemma detachEach_error_source:
  "detachEach E refs s = (Inl e, s') \<Longrightarrow>
     e = TypeError \<or> (\<exists>f a h. refCallback E f a h = Inl e) \<or> (\<exists>c h. cleanupFn E c h = Some e)"
proof (induction refs arbitrary: s)
  case Nil
  then show ?case by simp
next
  case (Cons r refs)
  show ?case
  proof (cases "cleanupMap s r" rule: entry_cases)
    case (callable c)
    show ?thesis
    proof (cases "cleanupFn E c (calls s)")
      case None
      with callable Cons show ?thesis by (auto simp: callCleanup_def)
    next
      case (Some e')
      with callable Cons.prems have "e' = e" by (auto simp: callCleanup_def)
      with Some show ?thesis by blast
    qed
  next
    case (truthy x)
    with Cons.prems show ?thesis by simp
  next
    case falsy
    from Cons.prems detachEach_falsy [OF falsy, of E refs]
    have "(case assignRef E r None s of
             (Inl e, s') \<Rightarrow> (Inl e, s')
           | (Inr res, s') \<Rightarrow> detachEach E refs s') = (Inl e, s')"
      by simp
    with Cons.IH show ?thesis
      by (cases r) (auto split: prod.splits sum.splits)
  qed
qed

section \<open>States that differ in the entries for \<^verbatim>\<open>undefined\<close> and \<^verbatim>\<open>null\<close> only\<close>

lemma sameButAbsent_lookup: "sameButAbsent s t \<Longrightarrow> present r \<Longrightarrow> cleanupMap s r = cleanupMap t r"
  by (simp add: sameButAbsent_def)

lemma sameButAbsent_noCleanup: "sameButAbsent s t \<Longrightarrow> \<not> present r \<Longrightarrow> noCleanupAt (cleanupMap s) r"
  by (cases r) (simp_all add: sameButAbsent_def)

lemma sameButAbsent_store_absent:
  "sameButAbsent s t \<Longrightarrow> \<not> present r \<Longrightarrow>
     sameButAbsent (s\<lparr>cleanupMap := (cleanupMap s)(r \<mapsto> None)\<rparr>) t"
  by (cases r) (auto simp: sameButAbsent_def noCleanupAt_def)

lemma sameButAbsent_store:
  "sameButAbsent s t \<Longrightarrow> present r \<Longrightarrow>
     sameButAbsent (s\<lparr>cleanupMap := (cleanupMap s)(r \<mapsto> m)\<rparr>)
                   (t\<lparr>cleanupMap := (cleanupMap t)(r \<mapsto> m)\<rparr>)"
  by (cases r) (auto simp: sameButAbsent_def noCleanupAt_def)

lemma sameButAbsent_assignRef:
  assumes "sameButAbsent s t"
  shows "fst (assignRef E r v s) = fst (assignRef E r v t)
         \<and> sameButAbsent (snd (assignRef E r v s)) (snd (assignRef E r v t))"
  using assms by (cases r) (auto simp: sameButAbsent_def)

lemma sameButAbsent_callCleanup:
  assumes "sameButAbsent s t"
  shows "fst (callCleanup E c s) = fst (callCleanup E c t)
         \<and> sameButAbsent (snd (callCleanup E c s)) (snd (callCleanup E c t))"
  using assms by (auto simp: sameButAbsent_def callCleanup_def)

lemma attachEach_absent:
  "sameButAbsent s t \<Longrightarrow>
     fst (attachEach E v refs s) = fst (attachEach E v (filter present refs) t)
     \<and> sameButAbsent (snd (attachEach E v refs s)) (snd (attachEach E v (filter present refs) t))"
proof (induction refs arbitrary: s t)
  case Nil
  then show ?case by simp
next
  case (Cons r refs)
  show ?case
  proof (cases "present r")
    case False
    then have a: "assignRef E r (Some v) s = (Inr NoCleanup, s)" by (rule assignRef_absent)
    from Cons.IH [OF sameButAbsent_store_absent [OF Cons.prems False]] a False
    show ?thesis by simp
  next
    case True
    obtain x s1 where s1: "assignRef E r (Some v) s = (x, s1)" by (cases "assignRef E r (Some v) s")
    obtain y t1 where t1: "assignRef E r (Some v) t = (y, t1)" by (cases "assignRef E r (Some v) t")
    from sameButAbsent_assignRef [OF Cons.prems, of E r "Some v"] s1 t1
    have xy: "y = x" and rel: "sameButAbsent s1 t1" by simp_all
    from t1 xy have t1': "assignRef E r (Some v) t = (x, t1)" by simp
    show ?thesis
    proof (cases x)
      case (Inl e)
      with s1 t1' rel True show ?thesis by simp
    next
      case (Inr res)
      from Cons.IH [OF sameButAbsent_store [OF rel True, of "orNull res"]] s1 t1' Inr True
      show ?thesis by simp
    qed
  qed
qed

lemma detachEach_absent:
  "sameButAbsent s t \<Longrightarrow>
     fst (detachEach E refs s) = fst (detachEach E (filter present refs) t)
     \<and> sameButAbsent (snd (detachEach E refs s)) (snd (detachEach E (filter present refs) t))"
proof (induction refs arbitrary: s t)
  case Nil
  then show ?case by simp
next
  case (Cons r refs)
  show ?case
  proof (cases "present r")
    case False
    then have a: "assignRef E r None s = (Inr NoCleanup, s)" by (rule assignRef_absent)
    from noCleanupAt_falsy [OF sameButAbsent_noCleanup [OF Cons.prems False]]
    have "detachEach E (r # refs) s = detachEach E refs s"
      using a detachEach_falsy [of s r E refs] by simp
    with Cons.IH [OF Cons.prems] False show ?thesis by simp
  next
    case True
    note look = sameButAbsent_lookup [OF Cons.prems True]
    show ?thesis
    proof (cases "cleanupMap s r" rule: entry_cases)
      case (callable c)
      obtain x s1 where s1: "callCleanup E c s = (x, s1)" by (cases "callCleanup E c s")
      obtain y t1 where t1: "callCleanup E c t = (y, t1)" by (cases "callCleanup E c t")
      from sameButAbsent_callCleanup [OF Cons.prems, of E c] s1 t1
      have xy: "y = x" and rel: "sameButAbsent s1 t1" by simp_all
      from t1 xy have t1': "callCleanup E c t = (x, t1)" by simp
      from callable look have c': "cleanupMap t r = Some (Some (Cleanup c))" by simp
      show ?thesis
      proof (cases x)
        case (Inl e)
        with s1 t1' rel callable c' \<open>present r\<close> show ?thesis by simp
      next
        case (Inr u)
        with Cons.IH [OF rel] s1 t1' callable c' \<open>present r\<close> show ?thesis by simp
      qed
    next
      case (truthy x)
      with look have "cleanupMap t r = Some (Some (Truthy x))" by simp
      with truthy Cons.prems \<open>present r\<close> show ?thesis by simp
    next
      case falsy
      from falsy look have falsy':
        "\<forall>c. cleanupMap t r \<noteq> Some (Some (Cleanup c))" "\<forall>x. cleanupMap t r \<noteq> Some (Some (Truthy x))"
        by simp_all
      obtain x s1 where s1: "assignRef E r None s = (x, s1)" by (cases "assignRef E r None s")
      obtain y t1 where t1: "assignRef E r None t = (y, t1)" by (cases "assignRef E r None t")
      from sameButAbsent_assignRef [OF Cons.prems, of E r None] s1 t1
      have xy: "y = x" and rel: "sameButAbsent s1 t1" by simp_all
      from detachEach_falsy [OF falsy, of E refs] s1 have L: "detachEach E (r # refs) s
          = (case x of Inl e \<Rightarrow> (Inl e, s1) | Inr res \<Rightarrow> detachEach E refs s1)"
        by (simp split: sum.splits)
      from detachEach_falsy [OF falsy', of E "filter present refs"] t1 xy
      have R: "detachEach E (r # filter present refs) t
          = (case x of Inl e \<Rightarrow> (Inl e, t1) | Inr res \<Rightarrow> detachEach E (filter present refs) t1)"
        by (simp split: sum.splits)
      show ?thesis
      proof (cases x)
        case (Inl e)
        with L R rel \<open>present r\<close> show ?thesis by simp
      next
        case (Inr res)
        with Cons.IH [OF rel] L R \<open>present r\<close> show ?thesis by simp
      qed
    qed
  qed
qed

lemma sameButAbsent_clear:
  "sameButAbsent s t \<Longrightarrow> sameButAbsent (s\<lparr>cleanupMap := Map.empty\<rparr>) (t\<lparr>cleanupMap := Map.empty\<rparr>)"
  by (simp add: sameButAbsent_def noCleanupAt_def)

section \<open>assignRef: the three cases\<close>

text \<open>
  C4. \<^verbatim>\<open>assignRef\<close> on an absent ref (\<^verbatim>\<open>undefined\<close> or \<^verbatim>\<open>null\<close>) changes nothing and returns
  nothing; on a callback it calls the callback with the value, once, and returns what the
  callback returns or throws, as it is; on a ref object it overwrites \<^verbatim>\<open>current\<close> with the
  value, changes nothing else and returns nothing.
\<close>

theorem assignRef_contract:
  "assignRef E Undefined v s = (Inr NoCleanup, s)
   \<and> assignRef E Null v s = (Inr NoCleanup, s)
   \<and> fst (assignRef E (RefCallback f) v s) = refCallback E f v (calls s)
   \<and> calls (snd (assignRef E (RefCallback f) v s)) = calls s @ [RefCalled f v]
   \<and> current (snd (assignRef E (RefCallback f) v s)) = current s
   \<and> cleanupMap (snd (assignRef E (RefCallback f) v s)) = cleanupMap s
   \<and> fst (assignRef E (RefObject c) v s) = Inr NoCleanup
   \<and> current (snd (assignRef E (RefObject c) v s)) = (current s)(c := v)
   \<and> calls (snd (assignRef E (RefObject c) v s)) = calls s
   \<and> cleanupMap (snd (assignRef E (RefObject c) v s)) = cleanupMap s"
  by simp

section \<open>A callback with a cleanup function and one without\<close>

text \<open>
  The list is two different callbacks \<open>a\<close> and \<open>b\<close>; called with the node \<open>v\<close>, \<open>a\<close> returns
  the cleanup function \<open>c\<close> and \<open>b\<close> returns nothing, and \<open>c\<close> returns when it is called. Then
  the combined ref called with \<open>v\<close> calls \<open>a\<close> with \<open>v\<close>, then \<open>b\<close> with \<open>v\<close>, and nothing else;
  called with \<^verbatim>\<open>null\<close> afterwards it calls \<open>c\<close> once, then \<open>b\<close> with \<^verbatim>\<open>null\<close> once, and nothing
  else: \<open>a\<close> is not called with \<^verbatim>\<open>null\<close>.
\<close>

lemma mixed_pair:
  assumes "a \<noteq> b"
      and "refCallback E a (Some v) (calls s) = Inr (Cleanup c)"
      and "refCallback E b (Some v) (calls s @ [RefCalled a (Some v)]) = Inr NoCleanup"
      and "cleanupFn E c (calls s @ [RefCalled a (Some v), RefCalled b (Some v)]) = None"
  shows "\<exists>s1. mergeRefs E [RefCallback a, RefCallback b] (Some v) s = (Inr (), s1)
           \<and> calls s1 = calls s @ [RefCalled a (Some v), RefCalled b (Some v)]
           \<and> calls (snd (mergeRefs E [RefCallback a, RefCallback b] None s1))
               = calls s1 @ [CleanupCalled c, RefCalled b None]"
  using assms
  by (simp add: mergeRefs_def callCleanup_def split: prod.splits sum.splits)

text \<open>
  C1 fails for a second callback that returns a value that is not a function. The list is
  \<^verbatim>\<open>fnRef\<close> (callback 0), which returns a cleanup function, and \<^verbatim>\<open>(el) => (x = el)\<close>
  (callback 4), which returns the node and no cleanup function. The attach calls both with
  the node and returns. The detach calls the cleanup function of callback 0, then finds the
  node stored for callback 4, calls it and throws a \<^verbatim>\<open>TypeError\<close>: callback 4 is never
  called with \<^verbatim>\<open>null\<close>.
\<close>

theorem mixed_pair_node_returned:
  "refCallback testEnv 0 (Some 7) [] = Inr (Cleanup 0)
   \<and> refCallback testEnv 4 (Some 7) [RefCalled 0 (Some 7)] = Inr (Truthy 7)
   \<and> fst (mergeRefs testEnv [RefCallback 0, RefCallback 4] (Some 7) testState) = Inr ()
   \<and> calls (snd (mergeRefs testEnv [RefCallback 0, RefCallback 4] (Some 7) testState))
       = [RefCalled 0 (Some 7), RefCalled 4 (Some 7)]
   \<and> fst (mergeRefs testEnv [RefCallback 0, RefCallback 4] None
        (snd (mergeRefs testEnv [RefCallback 0, RefCallback 4] (Some 7) testState)))
       = Inl TypeError
   \<and> calls (snd (mergeRefs testEnv [RefCallback 0, RefCallback 4] None
        (snd (mergeRefs testEnv [RefCallback 0, RefCallback 4] (Some 7) testState))))
       = [RefCalled 0 (Some 7), RefCalled 4 (Some 7), CleanupCalled 0]"
  by (simp add: mergeRefs_def callCleanup_def testEnv_def testState_def created_def)

section \<open>Lists of callbacks that return a cleanup function\<close>

text \<open>
  C2, as the code has it. The list holds callbacks only, no callback twice, and each of them
  called with the node \<open>v\<close> returns a cleanup function that returns when it is called.
  Then the combined ref called with \<open>v\<close> calls every callback once with \<open>v\<close>, in the order of
  the list, and no cleanup function; called with \<^verbatim>\<open>null\<close> afterwards it calls the cleanup
  functions \<open>cs\<close> that the callbacks have returned, each once, in the order of the list, and
  no callback.
\<close>

theorem cleanup_callbacks:
  assumes "distinct fs"
      and "\<forall>f\<in>set fs. \<forall>h. \<exists>c. refCallback E f (Some v) h = Inr (Cleanup c)
                                  \<and> (\<forall>h'. cleanupFn E c h' = None)"
  shows "\<exists>cs s1 s2. returned E v fs (calls s) = map (\<lambda>c. Inr (Cleanup c)) cs
           \<and> mergeRefs E (map RefCallback fs) (Some v) s = (Inr (), s1)
           \<and> calls s1 = calls s @ map (\<lambda>f. RefCalled f (Some v)) fs
           \<and> mergeRefs E (map RefCallback fs) None s1 = (Inr (), s2)
           \<and> calls s2 = calls s1 @ map CleanupCalled cs"
proof -
  let ?refs = "map RefCallback fs"
  from returned_cleanups [OF assms(2), of "calls s"] obtain cs where
    cs: "returned E v fs (calls s) = map (\<lambda>c. Inr (Cleanup c)) cs"
    and quiet: "\<forall>c\<in>set cs. \<forall>h'. cleanupFn E c h' = None"
    by blast
  from attachEach_cleanups [OF assms(1) cs] obtain s1 where
    a: "attachEach E v ?refs s = (Inr (), s1)"
    and stored: "list_all2 (\<lambda>f c. cleanupMap s1 (RefCallback f) = Some (Some (Cleanup c))) fs cs"
    by blast
  have c1: "calls s1 = calls s @ map (\<lambda>f. RefCalled f (Some v)) fs"
    using attachEach_calls [OF a] by (simp add: refCalls_map_RefCallback)
  from detachEach_cleanups [OF stored quiet] obtain s' where
    d: "detachEach E ?refs s1 = (Inr (), s')" and c2: "calls s' = calls s1 @ map CleanupCalled cs"
    by blast
  have "mergeRefs E ?refs (Some v) s = (Inr (), s1)" using a by (simp add: mergeRefs_def)
  moreover have "mergeRefs E ?refs None s1 = (Inr (), s'\<lparr>cleanupMap := Map.empty\<rparr>)"
    using d by (simp add: mergeRefs_def)
  moreover have "calls (s'\<lparr>cleanupMap := Map.empty\<rparr>) = calls s1 @ map CleanupCalled cs"
    using c2 by simp
  ultimately show ?thesis using cs c1 by blast
qed

theorem cleanup_callbacks_witness:
  "distinct [0::nat, 3]
   \<and> (\<forall>h. \<exists>c. refCallback testEnv 0 (Some 7) h = Inr (Cleanup c)
              \<and> (\<forall>h'. cleanupFn testEnv c h' = None))
   \<and> (\<forall>h. \<exists>c. refCallback testEnv 3 (Some 7) h = Inr (Cleanup c)
              \<and> (\<forall>h'. cleanupFn testEnv c h' = None))
   \<and> returned testEnv 7 [0, 3] (calls testState) = [Inr (Cleanup 0), Inr (Cleanup 1)]
   \<and> calls (snd (mergeRefs testEnv (map RefCallback [0, 3]) None
        (snd (mergeRefs testEnv (map RefCallback [0, 3]) (Some 7) testState))))
       = [RefCalled 0 (Some 7), RefCalled 3 (Some 7), CleanupCalled 0, CleanupCalled 1]"
proof -
  have h1: "distinct [0::nat, 3]" by simp
  have h2: "\<forall>f\<in>set [0, 3]. \<forall>h. \<exists>c. refCallback testEnv f (Some 7) h = Inr (Cleanup c)
                                  \<and> (\<forall>h'. cleanupFn testEnv c h' = None)"
    by (simp add: testEnv_def)
  have r: "returned testEnv 7 [0, 3] (calls testState) = [Inr (Cleanup 0), Inr (Cleanup 1)]"
    by (simp add: testEnv_def testState_def created_def)
  from cleanup_callbacks [OF h1 h2, of testState] obtain cs s1 s2 where
    "returned testEnv 7 [0, 3] (calls testState) = map (\<lambda>c. Inr (Cleanup c)) cs"
    "mergeRefs testEnv (map RefCallback [0, 3]) (Some 7) testState = (Inr (), s1)"
    "calls s1 = calls testState @ map (\<lambda>f. RefCalled f (Some 7)) [0, 3]"
    "mergeRefs testEnv (map RefCallback [0, 3]) None s1 = (Inr (), s2)"
    "calls s2 = calls s1 @ map CleanupCalled cs"
    by blast
  moreover from this(1) r have "cs = [0, 1]" by auto
  ultimately have "calls (snd (mergeRefs testEnv (map RefCallback [0, 3]) None
        (snd (mergeRefs testEnv (map RefCallback [0, 3]) (Some 7) testState))))
       = [RefCalled 0 (Some 7), RefCalled 3 (Some 7), CleanupCalled 0, CleanupCalled 1]"
    by (simp add: testState_def created_def)
  with h1 h2 r show ?thesis by simp
qed

text \<open>
  With the same callback twice in the list the map holds one entry for both places, the
  function returned by the second call: the function returned by the first call, 0, is
  never called, and the one returned by the second call, 1, is called twice.
\<close>

theorem repeated_callback_counterexample:
  "returned testEnv 7 [0, 0] (calls testState) = [Inr (Cleanup 0), Inr (Cleanup 1)]
   \<and> calls (snd (mergeRefs testEnv [RefCallback 0, RefCallback 0] None
        (snd (mergeRefs testEnv [RefCallback 0, RefCallback 0] (Some 7) testState))))
       = [RefCalled 0 (Some 7), RefCalled 0 (Some 7), CleanupCalled 1, CleanupCalled 1]"
  by (simp add: mergeRefs_def callCleanup_def testEnv_def testState_def created_def)

section \<open>Lists of callbacks that return nothing\<close>

text \<open>
  The list holds callbacks only, of any number, a callback may be there more than once;
  called with the node \<open>v\<close> each returns nothing, and called with \<^verbatim>\<open>null\<close> none throws. Then
  the combined ref called with \<open>v\<close> calls every callback of the list once with \<open>v\<close>, in the
  order of the list, and called with \<^verbatim>\<open>null\<close> afterwards it calls every callback of the list
  once with \<^verbatim>\<open>null\<close>, in the order of the list.
\<close>

lemma legacy_callbacks:
  assumes "\<forall>f\<in>set fs. \<forall>h. refCallback E f (Some v) h = Inr NoCleanup"
      and "\<forall>f\<in>set fs. \<forall>h. \<exists>res. refCallback E f None h = Inr res"
  shows "\<exists>s1 s2. mergeRefs E (map RefCallback fs) (Some v) s = (Inr (), s1)
           \<and> calls s1 = calls s @ map (\<lambda>f. RefCalled f (Some v)) fs
           \<and> mergeRefs E (map RefCallback fs) None s1 = (Inr (), s2)
           \<and> calls s2 = calls s1 @ map (\<lambda>f. RefCalled f None) fs"
proof -
  let ?refs = "map RefCallback fs"
  from assms(1) have "\<forall>f h. RefCallback f \<in> set ?refs \<longrightarrow> (\<exists>res. refCallback E f (Some v) h = Inr res)"
    by auto
  from attachEach_returns [OF this] obtain s1 where a: "attachEach E v ?refs s = (Inr (), s1)"
    by blast
  have c1: "calls s1 = calls s @ map (\<lambda>f. RefCalled f (Some v)) fs"
    using attachEach_calls [OF a] by (simp add: refCalls_map_RefCallback)
  from attachEach_nocleanup [OF a assms(1)]
  have "\<forall>r\<in>set ?refs. noCleanupAt (cleanupMap s1) r" by (auto simp: noCleanupAt_def)
  moreover from assms(2)
  have "\<forall>f h. RefCallback f \<in> set ?refs \<longrightarrow> (\<exists>res. refCallback E f None h = Inr res)" by auto
  ultimately obtain s' where d: "detachEach E ?refs s1 = (Inr (), s')"
      and c2: "calls s' = calls s1 @ refCalls None ?refs"
    using detachEach_fallback [of ?refs s1 E] by blast
  have "mergeRefs E ?refs (Some v) s = (Inr (), s1)" using a by (simp add: mergeRefs_def)
  moreover have "mergeRefs E ?refs None s1 = (Inr (), s'\<lparr>cleanupMap := Map.empty\<rparr>)"
    using d by (simp add: mergeRefs_def)
  moreover have "calls (s'\<lparr>cleanupMap := Map.empty\<rparr>) = calls s1 @ map (\<lambda>f. RefCalled f None) fs"
    using c2 by (simp add: refCalls_map_RefCallback)
  ultimately show ?thesis using c1 by blast
qed

text \<open>
  C3 fails for a callback that returns a value that is neither nothing nor a function. The
  list is \<^verbatim>\<open>(el) => (x = el)\<close> alone (callback 4), which returns no cleanup function. The attach
  calls it with the node and returns, and the node it returns is stored. The detach calls
  the stored node and throws a \<^verbatim>\<open>TypeError\<close>: the callback is not called with \<^verbatim>\<open>null\<close>, and
  the map is not cleared.
\<close>

theorem legacy_callback_node_returned:
  "refCallback testEnv 4 (Some 7) [] = Inr (Truthy 7)
   \<and> fst (mergeRefs testEnv [RefCallback 4] (Some 7) testState) = Inr ()
   \<and> calls (snd (mergeRefs testEnv [RefCallback 4] (Some 7) testState)) = [RefCalled 4 (Some 7)]
   \<and> cleanupMap (snd (mergeRefs testEnv [RefCallback 4] (Some 7) testState)) (RefCallback 4)
       = Some (Some (Truthy 7))
   \<and> fst (mergeRefs testEnv [RefCallback 4] None
        (snd (mergeRefs testEnv [RefCallback 4] (Some 7) testState))) = Inl TypeError
   \<and> calls (snd (mergeRefs testEnv [RefCallback 4] None
        (snd (mergeRefs testEnv [RefCallback 4] (Some 7) testState)))) = [RefCalled 4 (Some 7)]"
  by (simp add: mergeRefs_def testEnv_def testState_def created_def)

section \<open>What the attach loop stores\<close>

text \<open>
  C5. The combined ref is called with the node \<open>v\<close>. Wherever a ref \<open>r\<close> stands in the list
  (after \<open>xs\<close>, which has been gone through without an error, and before \<open>ys\<close>) and whatever
  its shape, \<^verbatim>\<open>assignRef\<close> is called on it with \<open>v\<close>, in the state that the refs before it have
  left, and what it returns is stored in \<^verbatim>\<open>cleanupMap\<close> under the key \<open>r\<close> before the refs after
  it are gone through: \<^verbatim>\<open>null\<close> when it returns nothing, and the returned value itself, so
  the cleanup function, otherwise. Unless \<open>r\<close> comes again in \<open>ys\<close>, that entry is the one
  the map holds when the call ends.
\<close>

theorem attach_stores_every_result:
  assumes "mergeRefs E xs (Some v) s = (Inr (), s1)"
      and "assignRef E r (Some v) s1 = (Inr res, s2)"
  shows "mergeRefs E (xs @ r # ys) (Some v) s
           = mergeRefs E ys (Some v)
               (s2\<lparr>cleanupMap := (cleanupMap s2)(r \<mapsto> (if res = NoCleanup then None else Some res))\<rparr>)
         \<and> (r \<notin> set ys \<longrightarrow>
              cleanupMap (snd (mergeRefs E (xs @ r # ys) (Some v) s)) r
                = Some (if res = NoCleanup then None else Some res))"
proof -
  have stored: "orNull res = (if res = NoCleanup then None else Some res)"
    by (cases res) simp_all
  let ?s3 = "s2\<lparr>cleanupMap := (cleanupMap s2)(r \<mapsto> (if res = NoCleanup then None else Some res))\<rparr>"
  have eq: "mergeRefs E (xs @ r # ys) (Some v) s = mergeRefs E ys (Some v) ?s3"
    using assms stored by (simp add: mergeRefs_def attachEach_append)
  have "cleanupMap (snd (mergeRefs E ys (Some v) ?s3)) r
          = Some (if res = NoCleanup then None else Some res)" if "r \<notin> set ys"
  proof -
    obtain x s' where run: "attachEach E v ys ?s3 = (x, s')" by (cases "attachEach E v ys ?s3")
    from attachEach_other_keys [OF run that] run show ?thesis by (simp add: mergeRefs_def)
  qed
  with eq show ?thesis by simp
qed

theorem attach_stores_every_result_witness:
  "fst (mergeRefs testEnv [RefObject 5, RefCallback 1] (Some 7) testState) = Inr ()
   \<and> cleanupMap (snd (mergeRefs testEnv
        [RefObject 5, RefCallback 1, RefCallback 0, Undefined, RefCallback 4] (Some 7) testState))
       (RefCallback 0) = Some (Some (Cleanup 1))
   \<and> cleanupMap (snd (mergeRefs testEnv
        [RefObject 5, RefCallback 1, RefCallback 0, Undefined, RefCallback 4] (Some 7) testState))
       Undefined = Some None"
proof -
  let ?xs = "[RefObject 5, RefCallback 1]"
  let ?s1 = "snd (mergeRefs testEnv ?xs (Some 7) testState)"
  let ?s2 = "?s1\<lparr>calls := calls ?s1 @ [RefCalled 0 (Some 7)]\<rparr>"
  have h1: "mergeRefs testEnv ?xs (Some 7) testState = (Inr (), ?s1)"
    by (simp add: mergeRefs_def testEnv_def)
  have h2: "assignRef testEnv (RefCallback 0) (Some 7) ?s1 = (Inr (Cleanup 1), ?s2)"
    by (simp add: mergeRefs_def testEnv_def testState_def created_def)
  have h3: "RefCallback 0 \<notin> set [Undefined, RefCallback 4]" by simp
  from attach_stores_every_result [OF h1 h2, of "[Undefined, RefCallback 4]"] h3
  have "cleanupMap (snd (mergeRefs testEnv (?xs @ RefCallback 0 # [Undefined, RefCallback 4])
          (Some 7) testState)) (RefCallback 0)
          = Some (if Cleanup 1 = NoCleanup then None else Some (Cleanup 1))"
    by blast
  then have A: "cleanupMap (snd (mergeRefs testEnv
        [RefObject 5, RefCallback 1, RefCallback 0, Undefined, RefCallback 4] (Some 7) testState))
       (RefCallback 0) = Some (Some (Cleanup 1))"
    by (simp only: append_Cons append_Nil refCleanup.distinct if_False)
  let ?ys = "[RefObject 5, RefCallback 1, RefCallback 0]"
  let ?t1 = "snd (mergeRefs testEnv ?ys (Some 7) testState)"
  have k1: "mergeRefs testEnv ?ys (Some 7) testState = (Inr (), ?t1)"
    by (simp add: mergeRefs_def testEnv_def)
  have k2: "assignRef testEnv Undefined (Some 7) ?t1 = (Inr NoCleanup, ?t1)" by simp
  have k3: "Undefined \<notin> set [RefCallback 4]" by simp
  from attach_stores_every_result [OF k1 k2, of "[RefCallback 4]"] k3
  have "cleanupMap (snd (mergeRefs testEnv (?ys @ Undefined # [RefCallback 4])
          (Some 7) testState)) Undefined
          = Some (if NoCleanup = NoCleanup then None else Some NoCleanup)"
    by blast
  then have B: "cleanupMap (snd (mergeRefs testEnv
        [RefObject 5, RefCallback 1, RefCallback 0, Undefined, RefCallback 4] (Some 7) testState))
       Undefined = Some None"
    by (simp only: append_Cons append_Nil refl if_True)
  from h1 A B show ?thesis by (metis fst_conv)
qed

section \<open>The entries of the map over an attach and a detach\<close>

text \<open>
  C6. When the map is empty, as it is for a new combined ref, the keys of the map after an
  attach that has returned are the refs of the list, one entry each. After a detach that
  has returned, whatever state \<open>t\<close> it started in (that left by the attach or another), the
  map is empty again: the state is that of a new combined ref, so the next attach and
  detach find what the first found.
\<close>

theorem registry_cycle:
  assumes "cleanupMap s = Map.empty"
      and "mergeRefs E refs (Some v) s = (Inr (), s1)"
      and "mergeRefs E refs None t = (Inr (), s2)"
  shows "dom (cleanupMap s1) = set refs \<and> cleanupMap s2 = Map.empty
         \<and> s2 = created (current s2) (calls s2)"
proof -
  from assms(2) have "attachEach E v refs s = (Inr (), s1)" by (simp add: mergeRefs_def)
  from attachEach_dom [OF this] assms(1) have "dom (cleanupMap s1) = set refs" by simp
  moreover from assms(3) have e: "cleanupMap s2 = Map.empty"
    by (auto simp: mergeRefs_def split: prod.splits sum.splits)
  moreover from e have "s2 = created (current s2) (calls s2)" by (simp add: created_def)
  ultimately show ?thesis by blast
qed

theorem registry_cycle_witness:
  "cleanupMap testState = Map.empty
   \<and> fst (mergeRefs testEnv [RefObject 5, RefCallback 0, RefCallback 1, Undefined] (Some 7) testState)
       = Inr ()
   \<and> dom (cleanupMap (snd (mergeRefs testEnv [RefObject 5, RefCallback 0, RefCallback 1, Undefined]
        (Some 7) testState)))
       = {RefObject 5, RefCallback 0, RefCallback 1, Undefined}
   \<and> cleanupMap (snd (mergeRefs testEnv [RefObject 5, RefCallback 0, RefCallback 1, Undefined] None
        (snd (mergeRefs testEnv [RefObject 5, RefCallback 0, RefCallback 1, Undefined]
          (Some 7) testState)))) = Map.empty"
proof -
  let ?refs = "[RefObject 5, RefCallback 0, RefCallback 1, Undefined]"
  let ?s1 = "snd (mergeRefs testEnv ?refs (Some 7) testState)"
  let ?s2 = "snd (mergeRefs testEnv ?refs None ?s1)"
  have h1: "cleanupMap testState = Map.empty" by (simp add: testState_def created_def)
  have h2: "mergeRefs testEnv ?refs (Some 7) testState = (Inr (), ?s1)"
    by (simp add: mergeRefs_def testEnv_def)
  have h3: "mergeRefs testEnv ?refs None ?s1 = (Inr (), ?s2)"
    by (simp add: mergeRefs_def testEnv_def callCleanup_def)
  have "set ?refs = {RefObject 5, RefCallback 0, RefCallback 1, Undefined}" by simp
  with registry_cycle [OF h1 h2 h3] h1 h2 show ?thesis by (metis fst_conv)
qed

section \<open>Ref objects\<close>



section \<open>Refs that are not set\<close>

text \<open>
  C8, as the code has it. For the calls made, the \<^verbatim>\<open>current\<close> fields, the result and every
  entry of the map but those of \<^verbatim>\<open>undefined\<close> and \<^verbatim>\<open>null\<close>, the combined ref of a list behaves
  as the combined ref of the list without its refs that are not set, at an attach and at a
  detach, whether or not a callback throws. But each ref of the list that is not set is a
  key of the map after an attach that returns: its entry is \<^verbatim>\<open>null\<close>, never a cleanup function.
\<close>

theorem absent_refs:
  assumes "sameButAbsent s t"
  shows "fst (mergeRefs E refs node s) = fst (mergeRefs E (filter present refs) node t)
         \<and> sameButAbsent (snd (mergeRefs E refs node s))
                         (snd (mergeRefs E (filter present refs) node t))
         \<and> (\<not> present r \<longrightarrow> r \<in> set refs \<longrightarrow> mergeRefs E refs (Some v) s = (Inr (), s') \<longrightarrow>
              cleanupMap s' r = Some None)"
proof -
  have sim: "fst (mergeRefs E refs node s) = fst (mergeRefs E (filter present refs) node t)
         \<and> sameButAbsent (snd (mergeRefs E refs node s))
                         (snd (mergeRefs E (filter present refs) node t))"
  proof (cases node)
    case (Some n)
    with attachEach_absent [OF assms, of E n refs] show ?thesis by (simp add: mergeRefs_def)
  next
    case None
    obtain x s1 where s1: "detachEach E refs s = (x, s1)" by (cases "detachEach E refs s")
    obtain y t1 where t1: "detachEach E (filter present refs) t = (y, t1)"
      by (cases "detachEach E (filter present refs) t")
    from detachEach_absent [OF assms, of E refs] s1 t1
    have xy: "y = x" and rel: "sameButAbsent s1 t1" by simp_all
    from t1 xy have t1': "detachEach E (filter present refs) t = (x, t1)" by simp
    from sameButAbsent_clear [OF rel] rel s1 t1' None show ?thesis
      by (cases x) (simp_all add: mergeRefs_def)
  qed
  have "cleanupMap s' r = Some None"
    if "\<not> present r" "r \<in> set refs" "mergeRefs E refs (Some v) s = (Inr (), s')"
  proof -
    from that(3) have a: "attachEach E v refs s = (Inr (), s')" by (simp add: mergeRefs_def)
    from that(1) have "\<And>f. r \<noteq> RefCallback f" by auto
    from attachEach_not_callback [OF a that(2) this] show ?thesis .
  qed
  with sim show ?thesis by blast
qed

theorem absent_refs_witness:
  "sameButAbsent testState testState
   \<and> fst (mergeRefs testEnv [Undefined, RefCallback 0, Null] (Some 7) testState)
       = fst (mergeRefs testEnv [RefCallback 0] (Some 7) testState)
   \<and> sameButAbsent (snd (mergeRefs testEnv [Undefined, RefCallback 0, Null] (Some 7) testState))
                   (snd (mergeRefs testEnv [RefCallback 0] (Some 7) testState))
   \<and> cleanupMap (snd (mergeRefs testEnv [Undefined, RefCallback 0, Null] (Some 7) testState)) Null
       = Some None"
proof -
  let ?refs = "[Undefined, RefCallback 0, Null]"
  let ?s1 = "snd (mergeRefs testEnv ?refs (Some 7) testState)"
  have h1: "sameButAbsent testState testState"
    by (simp add: sameButAbsent_def noCleanupAt_def testState_def created_def)
  have h2: "\<not> present Null" by simp
  have h3: "Null \<in> set ?refs" by simp
  have h4: "mergeRefs testEnv ?refs (Some 7) testState = (Inr (), ?s1)"
    by (simp add: mergeRefs_def testEnv_def)
  have f: "filter present ?refs = [RefCallback 0]" by simp
  from absent_refs [OF h1, of testEnv ?refs "Some 7" Null 7 ?s1] h2 h3 h4
  have "fst (mergeRefs testEnv ?refs (Some 7) testState)
          = fst (mergeRefs testEnv (filter present ?refs) (Some 7) testState)
        \<and> sameButAbsent ?s1 (snd (mergeRefs testEnv (filter present ?refs) (Some 7) testState))
        \<and> cleanupMap ?s1 Null = Some None"
    by blast
  with h1 show ?thesis by (simp only: f) 
qed

text \<open>After the attach of the list \<^verbatim>\<open>[undefined]\<close> the map has the key \<^verbatim>\<open>undefined\<close>.\<close>

theorem absent_key_counterexample:
  "cleanupMap (snd (mergeRefs testEnv [Undefined] (Some 7) testState)) Undefined = Some None
   \<and> Undefined \<in> dom (cleanupMap (snd (mergeRefs testEnv [Undefined] (Some 7) testState)))"
  by (simp add: mergeRefs_def)

section \<open>Errors thrown by a callback or a cleanup function\<close>

text \<open>
  When, at an attach, the refs \<open>xs\<close> have been gone through without an error and the next
  callback throws \<open>e\<close>, the combined ref throws that same \<open>e\<close>; the callbacks of \<open>xs\<close> have been
  called, the callback that throws has been called, and nothing of the rest \<open>ys\<close> of the list
  is done. The same holds at a detach for a callback that throws when it is called with
  \<^verbatim>\<open>null\<close> and for a stored cleanup function that throws; \<^verbatim>\<open>cleanupMap\<close> is then not cleared.
  At a detach the module also throws an error of its own, the \<^verbatim>\<open>TypeError\<close> of the call of a
  stored value that is truthy and not a function. Every error of the combined ref is that
  one, or one that a callback or a cleanup function has thrown.
\<close>

lemma errors_propagate:
  "(mergeRefs E xs (Some v) s = (Inr (), s1) \<longrightarrow> refCallback E f (Some v) (calls s1) = Inl e \<longrightarrow>
      mergeRefs E (xs @ RefCallback f # ys) (Some v) s
        = (Inl e, s1\<lparr>calls := calls s1 @ [RefCalled f (Some v)]\<rparr>)
      \<and> calls s1 = calls s @ refCalls (Some v) xs)
   \<and> (detachEach E xs s = (Inr (), s1) \<longrightarrow> noCleanupAt (cleanupMap s) (RefCallback f) \<longrightarrow>
      refCallback E f None (calls s1) = Inl e \<longrightarrow>
      mergeRefs E (xs @ RefCallback f # ys) None s
        = (Inl e, s1\<lparr>calls := calls s1 @ [RefCalled f None]\<rparr>))
   \<and> (detachEach E xs s = (Inr (), s1) \<longrightarrow> cleanupMap s r = Some (Some (Cleanup c)) \<longrightarrow>
      cleanupFn E c (calls s1) = Some e \<longrightarrow>
      mergeRefs E (xs @ r # ys) None s = (Inl e, s1\<lparr>calls := calls s1 @ [CleanupCalled c]\<rparr>))
   \<and> (detachEach E xs s = (Inr (), s1) \<longrightarrow> cleanupMap s r = Some (Some (Truthy x)) \<longrightarrow>
      mergeRefs E (xs @ r # ys) None s = (Inl TypeError, s1))
   \<and> (fst (mergeRefs E refs node s) = Inl e \<longrightarrow>
      e = TypeError \<or> (\<exists>f a h. refCallback E f a h = Inl e) \<or> (\<exists>c h. cleanupFn E c h = Some e))"
proof (intro conjI impI)
  assume a: "mergeRefs E xs (Some v) s = (Inr (), s1)"
     and t: "refCallback E f (Some v) (calls s1) = Inl e"
  then show "mergeRefs E (xs @ RefCallback f # ys) (Some v) s
       = (Inl e, s1\<lparr>calls := calls s1 @ [RefCalled f (Some v)]\<rparr>)"
    by (simp add: mergeRefs_def attachEach_append)
  from a have "attachEach E v xs s = (Inr (), s1)" by (simp add: mergeRefs_def)
  then show "calls s1 = calls s @ refCalls (Some v) xs" by (rule attachEach_calls)
next
  assume d: "detachEach E xs s = (Inr (), s1)"
     and n: "noCleanupAt (cleanupMap s) (RefCallback f)"
     and t: "refCallback E f None (calls s1) = Inl e"
  from detachEach_cleanupMap [OF d] n have "noCleanupAt (cleanupMap s1) (RefCallback f)" by simp
  from detachEach_falsy [of s1 "RefCallback f" E ys] noCleanupAt_falsy [OF this] d t
  show "mergeRefs E (xs @ RefCallback f # ys) None s
       = (Inl e, s1\<lparr>calls := calls s1 @ [RefCalled f None]\<rparr>)"
    by (simp add: mergeRefs_def detachEach_append)
next
  assume d: "detachEach E xs s = (Inr (), s1)"
     and m: "cleanupMap s r = Some (Some (Cleanup c))"
     and t: "cleanupFn E c (calls s1) = Some e"
  from detachEach_cleanupMap [OF d] m have "cleanupMap s1 r = Some (Some (Cleanup c))" by simp
  with d t show "mergeRefs E (xs @ r # ys) None s
       = (Inl e, s1\<lparr>calls := calls s1 @ [CleanupCalled c]\<rparr>)"
    by (simp add: mergeRefs_def detachEach_append callCleanup_def)
next
  assume d: "detachEach E xs s = (Inr (), s1)"
     and m: "cleanupMap s r = Some (Some (Truthy x))"
  from detachEach_cleanupMap [OF d] m have "cleanupMap s1 r = Some (Some (Truthy x))" by simp
  with d show "mergeRefs E (xs @ r # ys) None s = (Inl TypeError, s1)"
    by (simp add: mergeRefs_def detachEach_append)
next
  assume f: "fst (mergeRefs E refs node s) = Inl e"
  show "e = TypeError \<or> (\<exists>f a h. refCallback E f a h = Inl e) \<or> (\<exists>c h. cleanupFn E c h = Some e)"
  proof (cases node)
    case (Some n)
    with f obtain s' where "attachEach E n refs s = (Inl e, s')"
      by (cases "attachEach E n refs s") (simp add: mergeRefs_def)
    from attachEach_error_source [OF this] show ?thesis by blast
  next
    case None
    with f obtain s' where "detachEach E refs s = (Inl e, s')"
      by (cases "detachEach E refs s") (auto simp: mergeRefs_def split: sum.splits)
    from detachEach_error_source [OF this] show ?thesis .
  qed
qed

text \<open>
  C9 fails where it says that the module raises no error of its own. The list is a ref
  object, \<^verbatim>\<open>(el) => (x = el)\<close> (callback 4) and \<^verbatim>\<open>fnRef2\<close> (callback 1). No callback and no
  cleanup function here throws a \<^verbatim>\<open>TypeError\<close>, and the attach returns. The detach throws a
  \<^verbatim>\<open>TypeError\<close>, raised by the module's own call \<^verbatim>\<open>cleanup()\<close> of the node stored for callback
  4: neither callback has been called then, and callback 1 is never called with \<^verbatim>\<open>null\<close>.
\<close>

theorem TypeError_raised_by_detach:
  "(\<forall>f a h. refCallback testEnv f a h \<noteq> Inl TypeError)
   \<and> (\<forall>c h. cleanupFn testEnv c h \<noteq> Some TypeError)
   \<and> fst (mergeRefs testEnv [RefObject 5, RefCallback 4, RefCallback 1] (Some 7) testState) = Inr ()
   \<and> fst (mergeRefs testEnv [RefObject 5, RefCallback 4, RefCallback 1] None
        (snd (mergeRefs testEnv [RefObject 5, RefCallback 4, RefCallback 1] (Some 7) testState)))
       = Inl TypeError
   \<and> calls (snd (mergeRefs testEnv [RefObject 5, RefCallback 4, RefCallback 1] None
        (snd (mergeRefs testEnv [RefObject 5, RefCallback 4, RefCallback 1] (Some 7) testState))))
       = [RefCalled 4 (Some 7), RefCalled 1 (Some 7)]"
  by (simp add: mergeRefs_def testEnv_def testState_def created_def split: option.splits)

section \<open>A detach without entries in the map\<close>

text \<open>
  C10. The combined ref is called with \<^verbatim>\<open>null\<close>. When the map has no entry for any ref of the
  list, as for a new combined ref, and no callback throws when it is called with \<^verbatim>\<open>null\<close>,
  the call returns: every callback of the list has been called with \<^verbatim>\<open>null\<close>, in the order of
  the list, and every ref object of the list holds \<^verbatim>\<open>null\<close>. And wherever a ref \<open>r\<close> without
  entry stands in a list, \<^verbatim>\<open>assignRef\<close> is called on it with \<^verbatim>\<open>null\<close> when the refs before it
  have been gone through.
\<close>

theorem detach_without_entry:
  "((\<forall>r\<in>set refs. cleanupMap s r = None) \<longrightarrow>
      (\<forall>f h. RefCallback f \<in> set refs \<longrightarrow> (\<exists>res. refCallback E f None h = Inr res)) \<longrightarrow>
      (\<exists>s'. mergeRefs E refs None s = (Inr (), s') \<and> calls s' = calls s @ refCalls None refs
         \<and> current s' = (\<lambda>c. if RefObject c \<in> set refs then None else current s c)))
   \<and> (detachEach E xs s = (Inr (), s1) \<longrightarrow> cleanupMap s r = None \<longrightarrow>
      mergeRefs E (xs @ r # ys) None s
        = (case assignRef E r None s1 of
             (Inl e, s2) \<Rightarrow> (Inl e, s2)
           | (Inr res, s2) \<Rightarrow> mergeRefs E ys None s2))"
proof (intro conjI impI)
  assume "\<forall>r\<in>set refs. cleanupMap s r = None"
  then have "\<forall>r\<in>set refs. noCleanupAt (cleanupMap s) r" by (simp add: noCleanupAt_def)
  moreover assume "\<forall>f h. RefCallback f \<in> set refs \<longrightarrow> (\<exists>res. refCallback E f None h = Inr res)"
  ultimately obtain s' where d: "detachEach E refs s = (Inr (), s')"
      and c: "calls s' = calls s @ refCalls None refs"
      and u: "current s' = (\<lambda>c. if RefObject c \<in> set refs then None else current s c)"
    using detachEach_fallback [of refs s E] by blast
  from d have "mergeRefs E refs None s = (Inr (), s'\<lparr>cleanupMap := Map.empty\<rparr>)"
    by (simp add: mergeRefs_def)
  with c u show "\<exists>s'. mergeRefs E refs None s = (Inr (), s') \<and> calls s' = calls s @ refCalls None refs
         \<and> current s' = (\<lambda>c. if RefObject c \<in> set refs then None else current s c)"
    by simp
next
  assume d: "detachEach E xs s = (Inr (), s1)" and m: "cleanupMap s r = None"
  from detachEach_cleanupMap [OF d] m have "cleanupMap s1 r = None" by simp
  with d show "mergeRefs E (xs @ r # ys) None s
        = (case assignRef E r None s1 of
             (Inl e, s2) \<Rightarrow> (Inl e, s2)
           | (Inr res, s2) \<Rightarrow> mergeRefs E ys None s2)"
    by (simp add: mergeRefs_def detachEach_append split: prod.splits sum.splits)
qed

theorem detach_without_entry_witness:
  "fst (mergeRefs testEnv [RefCallback 0, RefObject 5, RefCallback 1, Null] None
     (created (\<lambda>c. Some 3) [])) = Inr ()
   \<and> calls (snd (mergeRefs testEnv [RefCallback 0, RefObject 5, RefCallback 1, Null] None
        (created (\<lambda>c. Some 3) []))) = [RefCalled 0 None, RefCalled 1 None]
   \<and> current (snd (mergeRefs testEnv [RefCallback 0, RefObject 5, RefCallback 1, Null] None
        (created (\<lambda>c. Some 3) []))) 5 = None"
proof -
  let ?refs = "[RefCallback 0, RefObject 5, RefCallback 1, Null]"
  let ?s = "created (\<lambda>c. Some (3::nat)) []"
  have h1: "\<forall>r\<in>set ?refs. cleanupMap ?s r = None" by (simp add: created_def)
  have h2: "\<forall>f h. RefCallback f \<in> set ?refs \<longrightarrow> (\<exists>res. refCallback testEnv f None h = Inr res)"
    by (auto simp: testEnv_def)
  from detach_without_entry [of ?refs ?s testEnv] h1 h2 obtain s' where
    "mergeRefs testEnv ?refs None ?s = (Inr (), s')"
    "calls s' = calls ?s @ refCalls None ?refs"
    "current s' = (\<lambda>c. if RefObject c \<in> set ?refs then None else current ?s c)"
    by blast
  then show ?thesis by (simp add: created_def)
qed

end
